theory Spec2Isabelle
  imports Main "HOL-Library.AList" "HOL-Library.Extended_Nat"
begin

section \<open>Strings and JavaScript objects used as dictionaries\<close>

text \<open>
  A JavaScript string is modelled as a \<^typ>\<open>string\<close>, a list of characters.  The functions
  below only compare, copy and concatenate characters, apart from \<open>toLowerCase\<close>, which
  is modelled on the ASCII letters; text outside ASCII is not modelled.  A value of type
  \<open>string | undefined\<close> is a \<^typ>\<open>string option\<close>; such a value is truthy when it is
  defined and not the empty string.
\<close>

definition sq :: char where
  "sq = CHR 0x27"

definition dq :: char where
  "dq = CHR 0x22"

definition bsl :: char where
  "bsl = CHR 0x5C"

definition truthy :: "string option \<Rightarrow> bool" where
  "truthy v = (case v of None \<Rightarrow> False | Some s \<Rightarrow> s \<noteq> [])"

definition lower_char :: "char \<Rightarrow> char" where
  "lower_char c =
     (let n = (of_char c :: nat) in if 65 \<le> n \<and> n \<le> 90 then char_of (n + 32) else c)"

definition toLowerCase :: "string \<Rightarrow> string" where
  "toLowerCase s = map lower_char s"

text \<open>
  \<open>s.replace(/c/g, r)\<close> for a single character \<open>c\<close>: every occurrence of \<open>c\<close> is
  replaced by \<open>r\<close>, left to right.
\<close>

definition replace_all :: "char \<Rightarrow> string \<Rightarrow> string \<Rightarrow> string" where
  "replace_all c r s = concat (map (\<lambda>x. if x = c then r else [x]) s)"

text \<open>
  A plain object \<open>{}\<close> used as \<open>Record<string, string>\<close> is an association list with
  distinct keys.  The object inherits from \<open>Object.prototype\<close>: an assignment to the key
  \<open>__proto__\<close> reaches the inherited setter, which ignores a string, so that no own
  property is created; every other key creates or overwrites an own property.  Reading
  a key that is not an own property yields the inherited member when the key names one
  (\<open>Object_prototype_keys\<close>), and \<open>undefined\<close> otherwise.  The attribute map is read
  only under fixed keys that name no inherited member, so there \<open>map_of\<close> is the read;
  \<open>roleMap\<close> is read under the role, which is any string.
\<close>

type_synonym js_record = "(string \<times> string) list"

definition Object_prototype_keys :: "string list" where
  "Object_prototype_keys =
     [''constructor'', ''__defineGetter__'', ''__defineSetter__'', ''hasOwnProperty'',
      ''__lookupGetter__'', ''__lookupSetter__'', ''isPrototypeOf'',
      ''propertyIsEnumerable'', ''toString'', ''valueOf'', ''__proto__'',
      ''toLocaleString'']"

definition assign :: "string \<Rightarrow> string \<Rightarrow> js_record \<Rightarrow> js_record" where
  "assign k v m = (if k = ''__proto__'' then m else AList.update k v m)"

datatype error = TypeError

section \<open>selectorGenerator.ts\<close>

datatype stability_level = High | Medium | Low

record SuggestedSelectors =
  testId :: "string option"
  idSel :: "string option"
  aria :: "string option"
  css :: "string option"
  playwright :: "string option"
  selenium :: "string option"
  cypress :: "string option"
  webdriverio :: "string option"
  stability :: stability_level
  recommended :: string

definition TEST_ID_ATTRS :: "string list" where
  "TEST_ID_ATTRS = [''data-testid'', ''data-cy'', ''data-test'', ''data-qa'']"

text \<open>
  \<open>UNSTABLE_ID_RE = /^(mat-|ng-|[0-9]|[a-f0-9]{8}-)/i\<close>.  Under the \<open>i\<close> flag an ASCII
  pattern character matches exactly its two ASCII cases.
\<close>

definition is_digit :: "char \<Rightarrow> bool" where
  "is_digit c = (let n = (of_char c :: nat) in 48 \<le> n \<and> n \<le> 57)"

definition is_hex_ci :: "char \<Rightarrow> bool" where
  "is_hex_ci c =
     (let n = (of_char (lower_char c) :: nat) in (97 \<le> n \<and> n \<le> 102) \<or> is_digit c)"

definition starts_with_ci :: "string \<Rightarrow> string \<Rightarrow> bool" where
  "starts_with_ci p s = (map lower_char (take (length p) s) = p)"

definition UNSTABLE_ID_RE_test :: "string \<Rightarrow> bool" where
  "UNSTABLE_ID_RE_test s =
     (starts_with_ci ''mat-'' s \<or> starts_with_ci ''ng-'' s
      \<or> list_all is_digit (take 1 s) \<and> s \<noteq> []
      \<or> list_all is_hex_ci (take 8 s) \<and> 8 < length s \<and> s ! 8 = CHR ''-'')"

fun parseAttrs_loop :: "string list \<Rightarrow> js_record \<Rightarrow> js_record" where
  "parseAttrs_loop (k # v # rest) m = parseAttrs_loop rest (assign k v m)"
| "parseAttrs_loop rest m = m"

definition parseAttrs :: "string list option \<Rightarrow> js_record" where
  "parseAttrs attributes =
     (case attributes of None \<Rightarrow> [] | Some xs \<Rightarrow> parseAttrs_loop xs [])"

definition escapeStr :: "string \<Rightarrow> string" where
  "escapeStr s = replace_all dq [bsl, dq] (replace_all sq [bsl, sq] s)"

definition buildAriaSelector :: "string \<Rightarrow> string \<Rightarrow> string" where
  "buildAriaSelector role name =
     (if name = [] then ''role='' @ role
      else ''role='' @ role @ ''[name=''  @ [sq] @ escapeStr name @ [sq] @ '']'')"

definition roleMap :: js_record where
  "roleMap =
     [(''textbox'', ''textbox''), (''searchbox'', ''searchbox''),
      (''combobox'', ''combobox''), (''button'', ''button''), (''link'', ''link''),
      (''checkbox'', ''checkbox''), (''radio'', ''radio''), (''listbox'', ''listbox''),
      (''option'', ''option''), (''menuitem'', ''menuitem''), (''tab'', ''tab''),
      (''switch'', ''switch''), (''slider'', ''slider''),
      (''spinbutton'', ''spinbutton''), (''gridcell'', ''gridcell'')]"

text \<open>
  \<open>roleMap[role] ?? role\<close> is the mapped role, or the inherited member of
  \<open>Object.prototype\<close> when \<open>role\<close> names one, or \<open>role\<close> itself.  In the second case
  \<open>escapeStr\<close> receives a value without a \<open>replace\<close> method and the call throws.
\<close>

definition buildPlaywrightByRole :: "string \<Rightarrow> string \<Rightarrow> error + string" where
  "buildPlaywrightByRole role name =
     (let ariaRole =
            (case map_of roleMap role of
               Some r \<Rightarrow> Inr r
             | None \<Rightarrow> if role \<in> set Object_prototype_keys then Inl TypeError else Inr role)
      in case ariaRole of
           Inl e \<Rightarrow> Inl e
         | Inr r \<Rightarrow>
             if name = [] then Inr (''page.getByRole('' @ [sq] @ escapeStr r @ [sq] @ '')'')
             else Inr (''page.getByRole('' @ [sq] @ escapeStr r @ [sq] @ '', { name: ''
                         @ [sq] @ escapeStr name @ [sq] @ '' })''))"

definition buildXPath :: "string \<Rightarrow> string \<Rightarrow> string \<Rightarrow> string" where
  "buildXPath role name tag =
     (if name \<noteq> []
      then ''//'' @ tag @ ''[@aria-label='' @ [sq] @ escapeStr name @ [sq]
             @ '' or @title='' @ [sq] @ escapeStr name @ [sq] @ '']''
      else ''//'' @ tag @ ''[@role='' @ [sq] @ role @ [sq] @ '']'')"

text \<open>The template \<open>[a="v"]\<close>.\<close>

definition attr_eq :: "string \<Rightarrow> string \<Rightarrow> string" where
  "attr_eq a v = ''['' @ a @ ''='' @ [dq] @ v @ [dq] @ '']''"

fun semantic_parts :: "string list \<Rightarrow> js_record \<Rightarrow> string list" where
  "semantic_parts [] attrs = []"
| "semantic_parts (a # useful) attrs =
     (case map_of attrs a of
        Some v \<Rightarrow> (if v \<noteq> [] then attr_eq a v # semantic_parts useful attrs
                   else semantic_parts useful attrs)
      | None \<Rightarrow> semantic_parts useful attrs)"

definition buildSemanticCss :: "string \<Rightarrow> js_record \<Rightarrow> string" where
  "buildSemanticCss tag attrs =
     concat (tag # semantic_parts [''type'', ''name'', ''role'', ''placeholder''] attrs)"

text \<open>\<open>a || b\<close> on strings: \<open>a\<close> unless it is empty.\<close>

definition or_else :: "string \<Rightarrow> string \<Rightarrow> string" where
  "or_else a b = (if a \<noteq> [] then a else b)"

text \<open>
  The loop over \<open>TEST_ID_ATTRS\<close> returns at the first attribute whose value is truthy;
  \<open>first_test_id\<close> finds that attribute and its value.
\<close>

fun first_test_id :: "string list \<Rightarrow> js_record \<Rightarrow> (string \<times> string) option" where
  "first_test_id [] attrs = None"
| "first_test_id (a # rest) attrs =
     (if truthy (map_of attrs a) then Some (a, the (map_of attrs a))
      else first_test_id rest attrs)"

text \<open>The template \<open>f('body')\<close>.\<close>

definition wrap :: "string \<Rightarrow> string \<Rightarrow> string" where
  "wrap f body = f @ ''('' @ [sq] @ body @ [sq] @ '')''"

definition buildSelectorFromRawNode ::
  "string \<Rightarrow> string \<Rightarrow> string \<Rightarrow> string list option \<Rightarrow> error + SuggestedSelectors" where
  "buildSelectorFromRawNode name role tagName attributes =
     (let attrs = parseAttrs attributes;
          tag = toLowerCase tagName
      in case first_test_id TEST_ID_ATTRS attrs of
           Some (attr, val) \<Rightarrow>
             (let attrSelector = attr_eq attr val
              in Inr \<lparr> testId = Some attrSelector, idSel = None,
                       aria = Some (buildAriaSelector role name),
                       css = Some attrSelector,
                       playwright =
                         Some (if attr = ''data-testid''
                               then wrap ''page.getByTestId'' (escapeStr val)
                               else wrap ''page.locator'' (attr_eq attr (escapeStr val))),
                       selenium = Some (''driver.find_element(By.CSS_SELECTOR, ''
                                          @ [sq] @ attrSelector @ [sq] @ '')''),
                       cypress = Some (wrap ''cy.get'' attrSelector),
                       webdriverio = Some (wrap ''$'' attrSelector),
                       stability = High,
                       recommended =
                         (if attr = ''data-testid''
                          then wrap ''page.getByTestId'' (escapeStr val)
                          else wrap ''page.locator'' (attr_eq attr (escapeStr val))) \<rparr>)
         | None \<Rightarrow>
             (let idVal = map_of attrs ''id'' in
              if truthy idVal \<and> \<not> UNSTABLE_ID_RE_test (the idVal)
              then
                (let idSelector = ''#'' @ the idVal
                 in Inr \<lparr> testId = None, idSel = Some idSelector,
                          aria = Some (buildAriaSelector role name),
                          css = Some idSelector,
                          playwright = Some (wrap ''page.locator'' idSelector),
                          selenium = Some (''driver.find_element(By.ID, ''
                                             @ [sq] @ escapeStr (the idVal) @ [sq] @ '')''),
                          cypress = Some (wrap ''cy.get'' idSelector),
                          webdriverio = Some (wrap ''$'' idSelector),
                          stability = High,
                          recommended = wrap ''page.locator'' idSelector \<rparr>)
              else if name \<noteq> [] \<and> role \<noteq> []
              then
                (let ariaSelector = buildAriaSelector role name;
                     xpathSelector = buildXPath role name tag
                 in case buildPlaywrightByRole role name of
                      Inl e \<Rightarrow> Inl e
                    | Inr playwrightByRole \<Rightarrow>
                        Inr \<lparr> testId = None, idSel = None,
                              aria = Some ariaSelector,
                              css = Some (buildSemanticCss tag attrs),
                              playwright = Some playwrightByRole,
                              selenium = Some (''driver.find_element(By.XPATH, ''
                                                 @ [sq] @ xpathSelector @ [sq] @ '')''),
                              cypress = Some (wrap ''cy.get''
                                                (or_else (buildSemanticCss tag attrs) tag)),
                              webdriverio = Some (wrap ''$'' ariaSelector),
                              stability = Medium,
                              recommended = playwrightByRole \<rparr>)
              else
                (let semanticCss = or_else (buildSemanticCss tag attrs) tag
                 in Inr \<lparr> testId = None, idSel = None, aria = None,
                          css = Some semanticCss,
                          playwright = Some (wrap ''page.locator'' semanticCss),
                          selenium = Some (''driver.find_element(By.CSS_SELECTOR, ''
                                             @ [sq] @ semanticCss @ [sq] @ '')''),
                          cypress = Some (wrap ''cy.get'' semanticCss),
                          webdriverio = Some (wrap ''$'' semanticCss),
                          stability = Low,
                          recommended = wrap ''page.locator'' semanticCss \<rparr>)))"

text \<open>
  The framework locators of a bundle: the four fields of \<open>SuggestedSelectors\<close> that are
  named after a test framework.
\<close>

definition framework_strings :: "SuggestedSelectors \<Rightarrow> string option list" where
  "framework_strings b = [playwright b, selenium b, cypress b, webdriverio b]"

text \<open>
  A quote character \<open>q\<close> stands unescaped in a string when it occurs at a position that
  is not consumed by a preceding backslash.
\<close>

fun unescaped :: "char \<Rightarrow> string \<Rightarrow> bool" where
  "unescaped q [] = False"
| "unescaped q [c] = (c = q)"
| "unescaped q (c # d # cs) =
     (c = q \<or> (if c = bsl then unescaped q cs else unescaped q (d # cs)))"

text \<open>The keys of a flat attribute array: the elements that are followed by a value.\<close>

fun paired_keys :: "string list \<Rightarrow> string list" where
  "paired_keys (k # v # rest) = k # paired_keys rest"
| "paired_keys rest = []"

section \<open>browser/types.ts\<close>

text \<open>
  A payload of type \<open>unknown\<close> is a JSON value; numbers are modelled as integers.  An
  optional field is an \<^typ>\<open>'a option\<close>, \<open>None\<close> for \<open>undefined\<close>.
\<close>

datatype jsvalue = JNull | JBool bool | JNumber int | JString string

record CdpAXRelatedNode =
  rel_backendDOMNodeId :: "int option"
  idref :: "string option"
  rel_text :: "string option"

record CdpAXValue =
  ax_type :: string
  ax_payload :: "jsvalue option"
  relatedNodes :: "CdpAXRelatedNode list option"

record CdpAXProperty =
  prop_name :: string
  prop_value :: CdpAXValue

record CdpAXNode =
  nodeId :: string
  ignored :: bool
  ignoredReasons :: "CdpAXProperty list option"
  ax_role :: "CdpAXValue option"
  ax_name :: "CdpAXValue option"
  ax_description :: "CdpAXValue option"
  ax_val :: "CdpAXValue option"
  properties :: "CdpAXProperty list option"
  parentId :: "string option"
  childIds :: "string list option"
  backendDOMNodeId :: "int option"
  frameId :: "string option"

text \<open>
  \<open>AXNodeSummary\<close>: the fields other than \<open>children\<close> form a record, and the summary
  is that record together with the optional list of child summaries.
\<close>

record summary_fields =
  s_role :: jsvalue
  s_name :: jsvalue
  s_description :: "jsvalue option"
  s_val :: "jsvalue option"
  s_focused :: "jsvalue option"
  s_disabled :: "jsvalue option"
  s_checked :: "jsvalue option"
  s_expanded :: "jsvalue option"
  s_required :: "jsvalue option"
  s_level :: "jsvalue option"
  s_backendDOMNodeId :: "int option"
  s_nodeId :: string

datatype AXNodeSummary =
  Summary (fields: summary_fields) (children: "AXNodeSummary list option")

section \<open>utils/axTree.ts\<close>

text \<open>\<open>w?.value\<close> for an optional wrapper \<open>w\<close>.\<close>

definition payload :: "CdpAXValue option \<Rightarrow> jsvalue option" where
  "payload w = (case w of None \<Rightarrow> None | Some x \<Rightarrow> ax_payload x)"

text \<open>\<open>v ?? d\<close>: the default \<open>d\<close> when \<open>v\<close> is \<open>undefined\<close> or \<open>null\<close>.\<close>

definition nullish_or :: "jsvalue option \<Rightarrow> jsvalue \<Rightarrow> jsvalue" where
  "nullish_or v d = (case v of None \<Rightarrow> d | Some JNull \<Rightarrow> d | Some x \<Rightarrow> x)"

definition getPropertyValue :: "CdpAXProperty list option \<Rightarrow> string \<Rightarrow> jsvalue option" where
  "getPropertyValue props pname =
     (case props of
        None \<Rightarrow> None
      | Some ps \<Rightarrow>
          (case find (\<lambda>p. prop_name p = pname) ps of
             None \<Rightarrow> None
           | Some prop \<Rightarrow> ax_payload (prop_value prop)))"

definition cdpAXNodeToSummary :: "CdpAXNode \<Rightarrow> AXNodeSummary" where
  "cdpAXNodeToSummary node =
     (let props = Some (case properties node of None \<Rightarrow> [] | Some ps \<Rightarrow> ps)
      in Summary
           \<lparr> s_role = nullish_or (payload (ax_role node)) (JString ''unknown''),
             s_name = nullish_or (payload (ax_name node)) (JString []),
             s_description = payload (ax_description node),
             s_val = payload (ax_val node),
             s_focused = getPropertyValue props ''focused'',
             s_disabled = getPropertyValue props ''disabled'',
             s_checked = getPropertyValue props ''checked'',
             s_expanded = getPropertyValue props ''expanded'',
             s_required = getPropertyValue props ''required'',
             s_level = getPropertyValue props ''level'',
             s_backendDOMNodeId = backendDOMNodeId node,
             s_nodeId = nodeId node \<rparr>
           None)"

definition buildTreeIndex :: "CdpAXNode list \<Rightarrow> (string \<rightharpoonup> CdpAXNode)" where
  "buildTreeIndex nodes = fold (\<lambda>node index. index(nodeId node \<mapsto> node)) nodes Map.empty"

text \<open>
  The children that the loop of \<open>assembleTree\<close> recurses into: for each child id, in
  order, the node the index holds for it, when there is one and it is not ignored.
\<close>

definition live_children :: "(string \<rightharpoonup> CdpAXNode) \<Rightarrow> string list \<Rightarrow> CdpAXNode list" where
  "live_children index ids =
     List.map_filter
       (\<lambda>childId. case index childId of
                     None \<Rightarrow> None
                   | Some child \<Rightarrow> if \<not> ignored child then Some child else None)
       ids"

text \<open>
  \<open>assembleTree\<close> recurses once per level.  The depth is a natural number and the
  maximum depth a natural number or \<open>Infinity\<close>.  The first argument bounds the number
  of nested calls: \<open>None\<close> says that the bound was reached, so a call that returns no
  value under any bound does not return.
\<close>

fun assembleTree ::
  "nat \<Rightarrow> CdpAXNode \<Rightarrow> (string \<rightharpoonup> CdpAXNode) \<Rightarrow> nat \<Rightarrow> enat \<Rightarrow> AXNodeSummary option" where
  "assembleTree 0 node index depth maxDepth = None"
| "assembleTree (Suc fuel) node index depth maxDepth =
     (let summary = cdpAXNodeToSummary node in
      if maxDepth \<le> enat depth \<or> childIds node = None \<or> childIds node = Some []
      then Some summary
      else
        (case those (map (\<lambda>child. assembleTree fuel child index (depth + 1) maxDepth)
                       (live_children index (the (childIds node)))) of
           None \<Rightarrow> None
         | Some cs \<Rightarrow>
             Some (if cs \<noteq> [] then Summary (fields summary) (Some cs) else summary)))"

fun pruneToDepth :: "AXNodeSummary \<Rightarrow> int \<Rightarrow> AXNodeSummary" where
  "pruneToDepth (Summary f None) maxDepth = Summary f None"
| "pruneToDepth (Summary f (Some cs)) maxDepth =
     (if maxDepth \<le> 1 then Summary f None
      else Summary f (Some (map (\<lambda>child. pruneToDepth child (maxDepth - 1)) cs)))"

fun countNodes :: "AXNodeSummary \<Rightarrow> nat" where
  "countNodes (Summary f None) = 1"
| "countNodes (Summary f (Some cs)) =
     (if cs = [] then 1 else 1 + fold (\<lambda>child sum. sum + countNodes child) cs 0)"

section \<open>tools/getAccessibilityTree.ts: the branch that uses the full tree\<close>

datatype tree_response = NoRoot | Tree AXNodeSummary nat

definition select_root :: "CdpAXNode list \<Rightarrow> CdpAXNode option" where
  "select_root filtered =
     find (\<lambda>n. \<not> truthy (parentId n) \<or> the (parentId n) \<notin> set (map nodeId filtered))
       filtered"

definition full_tree :: "nat \<Rightarrow> CdpAXNode list \<Rightarrow> bool \<Rightarrow> nat \<Rightarrow> tree_response option" where
  "full_tree fuel nodes interestingOnly maxDepth =
     (let filtered = (if interestingOnly then filter (\<lambda>n. \<not> ignored n) nodes else nodes)
      in case select_root filtered of
           None \<Rightarrow> Some NoRoot
         | Some rootNode \<Rightarrow>
             (let index = buildTreeIndex filtered
              in case assembleTree fuel rootNode index 0 (enat maxDepth) of
                   None \<Rightarrow> None
                 | Some assembled \<Rightarrow>
                     Some (Tree (pruneToDepth assembled (int maxDepth))
                             (countNodes assembled))))"

section \<open>Properties of summary trees\<close>

text \<open>The invariant of the data model: a children list that is present is not empty.\<close>

fun children_ok :: "AXNodeSummary \<Rightarrow> bool" where
  "children_ok (Summary f None) = True"
| "children_ok (Summary f (Some cs)) = (cs \<noteq> [] \<and> list_all children_ok cs)"

text \<open>All summaries of a tree, the root first.\<close>

fun subtrees :: "AXNodeSummary \<Rightarrow> AXNodeSummary list" where
  "subtrees (Summary f None) = [Summary f None]"
| "subtrees (Summary f (Some cs)) = Summary f (Some cs) # concat (map subtrees cs)"

text \<open>The number of levels of a tree; a single node has one level.\<close>

fun tree_depth :: "AXNodeSummary \<Rightarrow> nat" where
  "tree_depth (Summary f None) = 1"
| "tree_depth (Summary f (Some cs)) = Suc (fold max (map tree_depth cs) 0)"

text \<open>
  The shape of a tree: its nodes with their fields and the order of their children,
  where a node without a children list has no children.
\<close>

datatype shape = Shape summary_fields "shape list"

fun shape_of :: "AXNodeSummary \<Rightarrow> shape" where
  "shape_of (Summary f None) = Shape f []"
| "shape_of (Summary f (Some cs)) = Shape f (map shape_of cs)"

definition child_ids :: "CdpAXNode \<Rightarrow> string list" where
  "child_ids n = (case childIds n of None \<Rightarrow> [] | Some ids \<Rightarrow> ids)"

text \<open>
  A chain of raw nodes in which every node but the first is held by the index under a
  child id of its predecessor and is not ignored.
\<close>

fun live_chain :: "(string \<rightharpoonup> CdpAXNode) \<Rightarrow> CdpAXNode list \<Rightarrow> bool" where
  "live_chain index [] = False"
| "live_chain index [n] = True"
| "live_chain index (n # m # rest) =
     (list_ex (\<lambda>childId. index childId = Some m) (child_ids n) \<and> \<not> ignored m
      \<and> live_chain index (m # rest))"

section \<open>Example inputs\<close>

text \<open>A raw node that carries only its identifier, its flag and its tree links.\<close>

definition raw_node :: "string \<Rightarrow> bool \<Rightarrow> string option \<Rightarrow> string list option \<Rightarrow> CdpAXNode" where
  "raw_node i ign parent kids =
     \<lparr> nodeId = i, ignored = ign, ignoredReasons = None, ax_role = None, ax_name = None,
       ax_description = None, ax_val = None, properties = None, parentId = parent,
       childIds = kids, backendDOMNodeId = None, frameId = None \<rparr>"

text \<open>
  A snapshot of four nodes: node 1 has the children 2 and 3, node 2 is ignored and has
  the child 4.
\<close>

definition ex_nodes :: "CdpAXNode list" where
  "ex_nodes =
     [raw_node ''1'' False None (Some [''2'', ''3'']),
      raw_node ''2'' True (Some ''1'') (Some [''4'']),
      raw_node ''3'' False (Some ''1'') None,
      raw_node ''4'' False (Some ''2'') None]"

definition ex_tree :: AXNodeSummary where
  "ex_tree =
     Summary (fields (cdpAXNodeToSummary (raw_node ''1'' False None (Some [''2'', ''3'']))))
       (Some [cdpAXNodeToSummary (raw_node ''3'' False (Some ''1'') None)])"

section \<open>Evaluation of the definitions on concrete inputs\<close>

lemmas eval_defs = buildSelectorFromRawNode_def parseAttrs_def assign_def TEST_ID_ATTRS_def
  truthy_def toLowerCase_def lower_char_def attr_eq_def wrap_def escapeStr_def replace_all_def
  buildAriaSelector_def sq_def dq_def bsl_def UNSTABLE_ID_RE_test_def starts_with_ci_def
  is_digit_def is_hex_ci_def buildSemanticCss_def or_else_def buildPlaywrightByRole_def
  roleMap_def Object_prototype_keys_def buildXPath_def Let_def

lemmas node_defs = raw_node_def buildTreeIndex_def child_ids_def live_children_def
  cdpAXNodeToSummary_def payload_def nullish_or_def getPropertyValue_def

section \<open>The attribute mapper\<close>

lemma length_update:
  "length (AList.update k v al) = (if k \<in> fst ` set al then length al else Suc (length al))"
  by (induction al) auto

lemma length_assign_le: "length (assign k v m) \<le> Suc (length m)"
  by (simp add: assign_def length_update)

lemma distinct_assign: "distinct (map fst m) \<Longrightarrow> distinct (map fst (assign k v m))"
  by (simp add: assign_def distinct_update)

lemma parseAttrs_loop_distinct:
  "distinct (map fst m) \<Longrightarrow> distinct (map fst (parseAttrs_loop xs m))"
  by (induction xs m rule: parseAttrs_loop.induct) (simp_all add: distinct_assign)

lemma parseAttrs_loop_le:
  "length (parseAttrs_loop xs m) \<le> length m + length xs div 2"
proof (induction xs m rule: parseAttrs_loop.induct)
  case (1 k v rest m)
  have "length (parseAttrs_loop rest (assign k v m)) \<le> length (assign k v m) + length rest div 2"
    by (rule 1)
  also have "\<dots> \<le> Suc (length m) + length rest div 2"
    using length_assign_le [of k v m] by simp
  finally show ?case by simp
qed simp_all

lemma parseAttrs_loop_exact:
  "distinct (paired_keys xs) \<Longrightarrow> ''__proto__'' \<notin> set (paired_keys xs) \<Longrightarrow>
   set (paired_keys xs) \<inter> fst ` set m = {} \<Longrightarrow>
   length (parseAttrs_loop xs m) = length m + length xs div 2"
proof (induction xs m rule: parseAttrs_loop.induct)
  case (1 k v rest m)
  from 1(2-4) have k: "k \<noteq> ''__proto__''" "k \<notin> fst ` set m" "k \<notin> set (paired_keys rest)"
    by auto
  then have a: "assign k v m = AList.update k v m" by (simp add: assign_def)
  have "set (paired_keys rest) \<inter> fst ` set (assign k v m) = {}"
    using 1(4) k(3) by (auto simp: a dom_update)
  with 1 have "length (parseAttrs_loop rest (assign k v m))
      = length (assign k v m) + length rest div 2"
    by simp
  then show ?case using k(2) by (simp add: a length_update)
qed simp_all

text \<open>
  Claim C5, as the code has it.  The mapping that \<open>parseAttrs\<close> builds from a flat
  sequence of length \<open>n\<close> has distinct keys and at most \<open>n div 2\<close> entries; it has exactly
  \<open>n div 2\<close> entries when the keys of the sequence are pairwise distinct and none of them
  is \<open>__proto__\<close>.  A trailing element without a value is dropped (\<open>n div 2\<close> rounds
  down), and an absent input yields the empty mapping.
\<close>

theorem parseAttrs_entries:
  "parseAttrs None = []
   \<and> distinct (map fst (parseAttrs (Some xs)))
   \<and> length (parseAttrs (Some xs)) \<le> length xs div 2
   \<and> (distinct (paired_keys xs) \<and> ''__proto__'' \<notin> set (paired_keys xs) \<longrightarrow>
        length (parseAttrs (Some xs)) = length xs div 2)"
  using parseAttrs_loop_le [of xs "[]"] parseAttrs_loop_exact [of xs "[]"]
    parseAttrs_loop_distinct [of "[]" xs]
  by (simp add: parseAttrs_def)

theorem parseAttrs_entries_witness:
  "distinct (paired_keys [''id'', ''email'', ''type'', ''text'', ''disabled''])
   \<and> ''__proto__'' \<notin> set (paired_keys [''id'', ''email'', ''type'', ''text'', ''disabled''])
   \<and> length (parseAttrs (Some [''id'', ''email'', ''type'', ''text'', ''disabled''])) = 2
   \<and> length [''id'', ''email'', ''type'', ''text'', ''disabled''] div 2 = (2::nat)"
  using parseAttrs_entries [of "[''id'', ''email'', ''type'', ''text'', ''disabled'']"]
  by simp

text \<open>
  The claim as stated fails on a sequence that repeats a key: four elements, one entry.
\<close>

theorem parseAttrs_duplicate_key:
  "length [''class'', ''a'', ''class'', ''b''] = 4
   \<and> parseAttrs (Some [''class'', ''a'', ''class'', ''b'']) = [(''class'', ''b'')]
   \<and> length (parseAttrs (Some [''class'', ''a'', ''class'', ''b''])) \<noteq> 4 div 2"
  by (simp add: parseAttrs_def assign_def)

section \<open>The selector synthesizer\<close>

lemma first_test_id_None:
  "\<forall>a\<in>set as. \<not> truthy (map_of attrs a) \<Longrightarrow> first_test_id as attrs = None"
  by (induction as) auto

lemma buildSelectorFromRawNode_returns:
  "role \<notin> set Object_prototype_keys \<or> name = [] \<Longrightarrow>
     \<exists>b. buildSelectorFromRawNode name role tagName attributes = Inr b"
  unfolding buildSelectorFromRawNode_def buildPlaywrightByRole_def Let_def
  by (auto split: option.splits prod.splits if_splits sum.splits)

lemma buildSelectorFromRawNode_throws:
  "buildSelectorFromRawNode name role tagName attributes = Inl e \<Longrightarrow>
     role \<in> set Object_prototype_keys \<and> name \<noteq> []"
  using buildSelectorFromRawNode_returns [of role name tagName attributes] by auto

text \<open>
  \<open>escapeStr\<close> leaves no unescaped quote in a string without backslashes; it does not
  escape the backslash itself, so a quote that follows a backslash ends up unescaped.
\<close>

lemma escapeStr_Cons:
  "escapeStr (c # s) =
     (if c = sq then [bsl, sq] else if c = dq then [bsl, dq] else [c]) @ escapeStr s"
  by (simp add: escapeStr_def replace_all_def sq_def dq_def bsl_def)

lemma escapeStr_Nil: "escapeStr [] = []"
  by (simp add: escapeStr_def replace_all_def)

lemma unescaped_Cons_plain:
  "c \<noteq> q \<Longrightarrow> c \<noteq> bsl \<Longrightarrow> unescaped q (c # s) = unescaped q s"
  by (cases s) auto

lemma escapeStr_no_raw_quote:
  assumes "bsl \<notin> set s" and "q = sq \<or> q = dq"
  shows "\<not> unescaped q (escapeStr s)"
  using assms(1)
proof (induction s)
  case Nil
  then show ?case by (simp add: escapeStr_Nil)
next
  case (Cons c s)
  have q: "q \<noteq> bsl" using assms(2) by (auto simp: sq_def dq_def bsl_def)
  show ?case
  proof (cases "c = sq \<or> c = dq")
    case True
    then show ?thesis using Cons q by (auto simp: escapeStr_Cons)
  next
    case False
    with Cons.prems have "c \<noteq> q" "c \<noteq> bsl" using assms(2) by auto
    then show ?thesis using Cons False by (simp add: escapeStr_Cons unescaped_Cons_plain)
  qed
qed

lemma escapeStr_after_backslash:
  "escapeStr [bsl, sq] = [bsl, bsl, sq] \<and> unescaped sq (escapeStr [bsl, sq])"
  by (simp add: escapeStr_def replace_all_def sq_def dq_def bsl_def)

text \<open>
  In tier 3 the aria selector and the XPath carry their own single quotes around the
  escaped name, and the WebdriverIO and Selenium strings wrap them in single quotes
  again.
\<close>

lemma tier3_nested_quotes:
  "map_sum id webdriverio (buildSelectorFromRawNode ''Home'' ''link'' ''a'' None)
     = Inr (Some (''$('' @ [sq] @ buildAriaSelector ''link'' ''Home'' @ [sq] @ '')''))
   \<and> unescaped sq (buildAriaSelector ''link'' ''Home'')
   \<and> map_sum id selenium (buildSelectorFromRawNode ''Home'' ''link'' ''a'' None)
     = Inr (Some (''driver.find_element(By.XPATH, '' @ [sq] @ buildXPath ''link'' ''Home'' ''a''
                    @ [sq] @ '')''))
   \<and> unescaped sq (buildXPath ''link'' ''Home'' ''a'')"
  by (simp add: eval_defs)

text \<open>
  Claim C1 fails on the code.  For the attribute value \<open>it's\<close> under \<open>data-testid\<close>, the
  Playwright locator embeds the escaped value, while the Selenium, Cypress and
  WebdriverIO locators (and the \<open>testId\<close> and \<open>css\<close> fields) embed the raw attribute
  selector: the single quote of the value stands unescaped inside a string that is
  delimited by single quotes.
\<close>

theorem raw_quote_in_test_id_locators:
  "buildSelectorFromRawNode [] [] ''div'' (Some [''data-testid'', ''it's''])
     = Inr \<lparr> testId = Some (attr_eq ''data-testid'' ''it's''), idSel = None,
              aria = Some ''role='',
              css = Some (attr_eq ''data-testid'' ''it's''),
              playwright = Some (''page.getByTestId('' @ [sq] @ ''it'' @ [bsl, sq] @ ''s''
                                   @ [sq] @ '')''),
              selenium = Some (''driver.find_element(By.CSS_SELECTOR, '' @ [sq]
                                 @ attr_eq ''data-testid'' ''it's'' @ [sq] @ '')''),
              cypress = Some (''cy.get('' @ [sq] @ attr_eq ''data-testid'' ''it's''
                                @ [sq] @ '')''),
              webdriverio = Some (''$('' @ [sq] @ attr_eq ''data-testid'' ''it's''
                                    @ [sq] @ '')''),
              stability = High,
              recommended = ''page.getByTestId('' @ [sq] @ ''it'' @ [bsl, sq] @ ''s''
                              @ [sq] @ '')'' \<rparr>
   \<and> unescaped sq (attr_eq ''data-testid'' ''it's'')
   \<and> \<not> unescaped sq (''it'' @ [bsl, sq] @ ''s'')
   \<and> escapeStr ''it's'' = ''it'' @ [bsl, sq] @ ''s''"
  by (simp add: eval_defs)

text \<open>
  Claim C2, as the code has it.  Whichever tier wins, a bundle that
  \<open>buildSelectorFromRawNode\<close> returns holds one locator string for each of the four
  frameworks of \<open>SuggestedSelectors\<close>: Playwright, Selenium, Cypress and WebdriverIO.
\<close>

theorem four_framework_strings:
  assumes "buildSelectorFromRawNode name role tagName attributes = Inr b"
  shows "\<exists>p s c w. framework_strings b = [Some p, Some s, Some c, Some w]"
  using assms unfolding buildSelectorFromRawNode_def Let_def framework_strings_def
  by (auto split: option.splits prod.splits if_splits sum.splits)

theorem four_framework_strings_witness:
  "\<exists>b. buildSelectorFromRawNode ''Home'' ''link'' ''a'' None = Inr b
       \<and> (\<exists>p s c w. framework_strings b = [Some p, Some s, Some c, Some w])"
proof -
  obtain b where b: "buildSelectorFromRawNode ''Home'' ''link'' ''a'' None = Inr b"
    using buildSelectorFromRawNode_returns [of "''link''" "''Home''" "''a''" None]
    by (auto simp: Object_prototype_keys_def)
  with four_framework_strings [OF b] show ?thesis by blast
qed

text \<open>The bundle has four framework strings, not five.\<close>

theorem five_framework_strings_counterexample:
  "map_sum id framework_strings (buildSelectorFromRawNode ''Home'' ''link'' ''a'' None)
     = Inr [Some (''page.getByRole('' @ [sq] @ ''link'' @ [sq]
                    @ '', { name: '' @ [sq] @ ''Home'' @ [sq] @ '' })''),
            Some (''driver.find_element(By.XPATH, '' @ [sq]
                    @ ''//a[@aria-label='' @ [sq] @ ''Home'' @ [sq]
                    @ '' or @title='' @ [sq] @ ''Home'' @ [sq] @ '']'' @ [sq] @ '')''),
            Some (''cy.get('' @ [sq] @ ''a'' @ [sq] @ '')''),
            Some (''$('' @ [sq] @ ''role=link[name='' @ [sq] @ ''Home''
                    @ [sq] @ '']'' @ [sq] @ '')'')]
   \<and> map_sum id (length \<circ> framework_strings)
         (buildSelectorFromRawNode ''Home'' ''link'' ''a'' None) \<noteq> Inr 5"
  by (simp add: eval_defs framework_strings_def)

text \<open>
  Claim C3, as the code has it.  When the attribute map holds \<open>data-testid\<close> with a
  value that is not empty, the test-id tier wins whatever the other attributes are: the
  bundle has stability high, its \<open>testId\<close> locator is the attribute selector of that
  value, its id locator is absent, and the recommended expression is the
  \<open>getByTestId\<close> form.
\<close>

theorem test_id_tier_wins:
  assumes "map_of (parseAttrs attributes) ''data-testid'' = Some v" and "v \<noteq> []"
  shows "\<exists>b. buildSelectorFromRawNode name role tagName attributes = Inr b
             \<and> stability b = High
             \<and> testId b = Some (attr_eq ''data-testid'' v)
             \<and> idSel b = None
             \<and> recommended b = wrap ''page.getByTestId'' (escapeStr v)"
  using assms
  by (simp add: buildSelectorFromRawNode_def TEST_ID_ATTRS_def truthy_def Let_def)

theorem test_id_tier_wins_witness:
  "map_of (parseAttrs (Some [''data-testid'', ''submit-btn'', ''id'', ''email-input'']))
      ''data-testid'' = Some ''submit-btn''
   \<and> ''submit-btn'' \<noteq> []
   \<and> \<not> UNSTABLE_ID_RE_test ''email-input''
   \<and> (\<exists>b. buildSelectorFromRawNode ''Submit'' ''button'' ''button''
              (Some [''data-testid'', ''submit-btn'', ''id'', ''email-input'']) = Inr b
          \<and> stability b = High
          \<and> testId b = Some (attr_eq ''data-testid'' ''submit-btn'')
          \<and> idSel b = None
          \<and> recommended b = wrap ''page.getByTestId'' (escapeStr ''submit-btn''))"
proof -
  have h: "map_of (parseAttrs (Some [''data-testid'', ''submit-btn'', ''id'', ''email-input'']))
      ''data-testid'' = Some ''submit-btn''"
    by (simp add: parseAttrs_def assign_def)
  have u: "\<not> UNSTABLE_ID_RE_test ''email-input''"
    by (simp add: eval_defs)
  from h u test_id_tier_wins [OF h, of "''Submit''" "''button''" "''button''"]
  show ?thesis by simp
qed

text \<open>
  An attribute map that holds \<open>data-testid\<close> with the empty value and a stable \<open>id\<close>:
  the id tier wins.
\<close>

theorem empty_test_id_falls_to_id_tier:
  "map_of (parseAttrs (Some [''data-testid'', '''', ''id'', ''email-input''])) ''data-testid''
      = Some ''''
   \<and> map_of (parseAttrs (Some [''data-testid'', '''', ''id'', ''email-input''])) ''id''
      = Some ''email-input''
   \<and> \<not> UNSTABLE_ID_RE_test ''email-input''
   \<and> buildSelectorFromRawNode ''Email'' ''textbox'' ''input''
        (Some [''data-testid'', '''', ''id'', ''email-input''])
      = Inr \<lparr> testId = None, idSel = Some ''#email-input'',
               aria = Some (''role=textbox[name='' @ [sq] @ ''Email'' @ [sq] @ '']''),
               css = Some ''#email-input'',
               playwright = Some (''page.locator('' @ [sq] @ ''#email-input'' @ [sq] @ '')''),
               selenium = Some (''driver.find_element(By.ID, '' @ [sq] @ ''email-input''
                                  @ [sq] @ '')''),
               cypress = Some (''cy.get('' @ [sq] @ ''#email-input'' @ [sq] @ '')''),
               webdriverio = Some (''$('' @ [sq] @ ''#email-input'' @ [sq] @ '')''),
               stability = High,
               recommended = ''page.locator('' @ [sq] @ ''#email-input'' @ [sq] @ '')'' \<rparr>"
  by (simp add: eval_defs)

lemma unstable_examples:
  "UNSTABLE_ID_RE_test ''mat-input-3''" "UNSTABLE_ID_RE_test ''ng-abc''"
  "UNSTABLE_ID_RE_test ''42''" "UNSTABLE_ID_RE_test ''a1b2c3d4-e5f6''"
  "\<not> UNSTABLE_ID_RE_test ''email-input''"
  by (simp_all add: eval_defs)

lemma unstable_upper_case: "UNSTABLE_ID_RE_test ''MAT-input-3''"
  by code_simp

text \<open>
  Claim C4.  With no test-id attribute in the attribute map and an \<open>id\<close> that matches
  \<open>UNSTABLE_ID_RE\<close>, the id tier does not win: a returned bundle has no id locator and
  no test-id locator, it is the bundle of tier 3 (stability medium, the plain semantic
  CSS) when name and role are both non-empty and the bundle of tier 4 (stability low)
  otherwise.  The call returns a bundle unless tier 3 is reached with a role that names
  a member of \<open>Object.prototype\<close>.
\<close>

theorem unstable_id_falls_through:
  assumes "\<forall>a\<in>set TEST_ID_ATTRS. map_of (parseAttrs attributes) a = None"
    and "map_of (parseAttrs attributes) ''id'' = Some i"
    and "UNSTABLE_ID_RE_test i"
  shows "(role \<notin> set Object_prototype_keys \<or> name = [] \<longrightarrow>
            (\<exists>b. buildSelectorFromRawNode name role tagName attributes = Inr b))
         \<and> (\<forall>b. buildSelectorFromRawNode name role tagName attributes = Inr b \<longrightarrow>
               idSel b = None \<and> testId b = None
               \<and> stability b = (if name \<noteq> [] \<and> role \<noteq> [] then Medium else Low)
               \<and> css b = Some (if name \<noteq> [] \<and> role \<noteq> []
                                then buildSemanticCss (toLowerCase tagName) (parseAttrs attributes)
                                else or_else (buildSemanticCss (toLowerCase tagName)
                                                (parseAttrs attributes)) (toLowerCase tagName)))"
proof -
  have "first_test_id TEST_ID_ATTRS (parseAttrs attributes) = None"
    using assms(1) by (intro first_test_id_None) (simp add: truthy_def)
  then show ?thesis
    using assms(2,3) buildSelectorFromRawNode_returns [of role name tagName attributes]
    unfolding buildSelectorFromRawNode_def Let_def
    by (auto split: sum.splits)
qed

theorem unstable_id_falls_through_witness:
  "map (map_of (parseAttrs (Some [''id'', ''mat-input-3'']))) TEST_ID_ATTRS
      = [None, None, None, None]
   \<and> map_of (parseAttrs (Some [''id'', ''mat-input-3''])) ''id'' = Some ''mat-input-3''
   \<and> UNSTABLE_ID_RE_test ''mat-input-3''
   \<and> (\<exists>b. buildSelectorFromRawNode ''Email'' ''textbox'' ''input''
              (Some [''id'', ''mat-input-3'']) = Inr b
          \<and> idSel b = None \<and> testId b = None \<and> stability b = Medium
          \<and> css b = Some ''input'')"
proof -
  let ?a = "Some [''id'', ''mat-input-3'']"
  have h0: "map (map_of (parseAttrs ?a)) TEST_ID_ATTRS = [None, None, None, None]"
    by (simp add: parseAttrs_def assign_def TEST_ID_ATTRS_def)
  then have h1: "\<forall>a\<in>set TEST_ID_ATTRS. map_of (parseAttrs ?a) a = None"
    by (simp add: TEST_ID_ATTRS_def)
  have h2: "map_of (parseAttrs ?a) ''id'' = Some ''mat-input-3''"
    by (simp add: parseAttrs_def assign_def)
  have h3: "UNSTABLE_ID_RE_test ''mat-input-3''"
    by (simp add: eval_defs)
  have p: "''textbox'' \<notin> set Object_prototype_keys"
    by (simp add: Object_prototype_keys_def)
  have c: "buildSemanticCss (toLowerCase ''input'') (parseAttrs ?a) = ''input''"
    by (simp add: eval_defs)
  from unstable_id_falls_through [OF h1 h2 h3, of "''textbox''" "''Email''" "''input''"] p c
  have "\<exists>b. buildSelectorFromRawNode ''Email'' ''textbox'' ''input'' ?a = Inr b
          \<and> idSel b = None \<and> testId b = None \<and> stability b = Medium
          \<and> css b = Some ''input''"
    by auto
  with h0 h2 h3 show ?thesis by blast
qed

text \<open>
  Claim C10.  In every tier the recommended string of the returned bundle is its
  Playwright string.
\<close>

theorem recommended_is_playwright:
  "buildSelectorFromRawNode name role tagName attributes = Inr b \<Longrightarrow>
     playwright b = Some (recommended b)"
  unfolding buildSelectorFromRawNode_def Let_def
  by (auto split: option.splits prod.splits if_splits sum.splits)

theorem recommended_is_playwright_witness:
  "\<exists>b. buildSelectorFromRawNode ''Submit'' ''button'' ''button''
          (Some [''data-cy'', ''submit'']) = Inr b
       \<and> playwright b = Some (recommended b)"
proof -
  obtain b where b: "buildSelectorFromRawNode ''Submit'' ''button'' ''button''
          (Some [''data-cy'', ''submit'']) = Inr b"
    using buildSelectorFromRawNode_returns
      [of "''button''" "''Submit''" "''button''" "Some [''data-cy'', ''submit'']"]
    by (auto simp: Object_prototype_keys_def)
  with recommended_is_playwright [OF b] show ?thesis by blast
qed

section \<open>The tree assembler and the depth pruner\<close>

lemma those_None: "None \<in> set xs \<Longrightarrow> those xs = None"
  by (induction xs) (auto split: option.splits)

lemma those_Some: "those xs = Some ys \<Longrightarrow> xs = map Some ys"
  by (induction xs arbitrary: ys) (auto split: option.splits)

lemma those_map_Some:
  assumes "those (map f xs) = Some ys" and "y \<in> set ys"
  shows "\<exists>x\<in>set xs. f x = Some y"
proof -
  from assms(1) have "map f xs = map Some ys" by (rule those_Some)
  then have "Some ` set ys = f ` set xs" by (metis set_map)
  with assms(2) show ?thesis by (metis imageE imageI)
qed

lemma those_total: "\<forall>x\<in>set xs. x \<noteq> None \<Longrightarrow> those xs \<noteq> None"
  by (induction xs) (auto split: option.splits)

lemma live_children_mem:
  "c \<in> set (live_children index ids) \<longleftrightarrow>
     (\<exists>childId\<in>set ids. index childId = Some c) \<and> \<not> ignored c"
  by (induction ids) (auto simp: live_children_def split: option.splits if_splits)

lemma summary_children: "children (cdpAXNodeToSummary node) = None"
  by (simp add: cdpAXNodeToSummary_def Let_def)

lemma summary_children_ok: "children_ok (cdpAXNodeToSummary node)"
  by (simp add: cdpAXNodeToSummary_def Let_def)

lemma assembleTree_children_ok:
  "assembleTree fuel node index depth maxDepth = Some t \<Longrightarrow> children_ok t"
proof (induction fuel arbitrary: node depth t)
  case 0
  then show ?case by simp
next
  case (Suc fuel)
  show ?case
  proof (cases "maxDepth \<le> enat depth \<or> childIds node = None \<or> childIds node = Some []")
    case True
    with Suc.prems show ?thesis by (auto simp: summary_children_ok)
  next
    case False
    with Suc.prems obtain cs where
      cs: "those (map (\<lambda>child. assembleTree fuel child index (depth + 1) maxDepth)
              (live_children index (the (childIds node)))) = Some cs"
      and t: "t = (if cs \<noteq> [] then Summary (fields (cdpAXNodeToSummary node)) (Some cs)
                   else cdpAXNodeToSummary node)"
      by (auto simp: Let_def split: option.splits)
    have "children_ok c" if "c \<in> set cs" for c
      using those_map_Some [OF cs that] Suc.IH by blast
    then show ?thesis
      by (simp add: t summary_children_ok list_all_iff)
  qed
qed

lemma pruneToDepth_children_ok: "children_ok t \<Longrightarrow> children_ok (pruneToDepth t d)"
  by (induction t d rule: pruneToDepth.induct) (auto simp: list_all_iff)

lemma assembleTree_finite:
  "m - depth < fuel \<Longrightarrow> assembleTree fuel node index depth (enat m) \<noteq> None"
proof (induction fuel arbitrary: node depth)
  case 0
  then show ?case by simp
next
  case (Suc fuel)
  show ?case
  proof (cases "enat m \<le> enat depth \<or> childIds node = None \<or> childIds node = Some []")
    case True
    then show ?thesis by auto
  next
    case False
    then have "depth < m" by simp
    with Suc.prems have "m - (depth + 1) < fuel" by simp
    then have "\<forall>child. assembleTree fuel child index (depth + 1) (enat m) \<noteq> None"
      using Suc.IH by blast
    then have "those (map (\<lambda>child. assembleTree fuel child index (depth + 1) (enat m))
              (live_children index (the (childIds node)))) \<noteq> None"
      by (intro those_total) auto
    with False show ?thesis by (auto simp: Let_def split: option.splits)
  qed
qed

lemma assembleTree_mono:
  "assembleTree fuel node index depth maxDepth = Some t \<Longrightarrow>
     assembleTree (fuel + k) node index depth maxDepth = Some t"
proof (induction fuel arbitrary: node depth t)
  case 0
  then show ?case by simp
next
  case (Suc fuel)
  show ?case
  proof (cases "maxDepth \<le> enat depth \<or> childIds node = None \<or> childIds node = Some []")
    case True
    with Suc.prems show ?thesis by auto
  next
    case False
    let ?xs = "live_children index (the (childIds node))"
    from False Suc.prems obtain cs where
      cs: "those (map (\<lambda>child. assembleTree fuel child index (depth + 1) maxDepth) ?xs) = Some cs"
      by (auto simp: Let_def split: option.splits)
    have eq: "map (\<lambda>child. assembleTree fuel child index (depth + 1) maxDepth) ?xs = map Some cs"
      using cs by (rule those_Some)
    have "assembleTree (fuel + k) child index (depth + 1) maxDepth
        = assembleTree fuel child index (depth + 1) maxDepth" if "child \<in> set ?xs" for child
    proof -
      from that eq obtain c where "assembleTree fuel child index (depth + 1) maxDepth = Some c"
        by (metis (no_types, lifting) imageE imageI set_map)
      then show ?thesis using Suc.IH by simp
    qed
    then have "map (\<lambda>child. assembleTree (fuel + k) child index (depth + 1) maxDepth) ?xs
        = map (\<lambda>child. assembleTree fuel child index (depth + 1) maxDepth) ?xs"
      by simp
    then have "assembleTree (Suc (fuel + k)) node index depth maxDepth
        = assembleTree (Suc fuel) node index depth maxDepth"
      by (simp only: assembleTree.simps)
    with Suc.prems show ?thesis by simp
  qed
qed

lemma assembleTree_diverges:
  assumes closed: "\<forall>n\<in>S. \<exists>m\<in>S. m \<in> set (live_children index (child_ids n))"
    and "node \<in> S"
  shows "assembleTree fuel node index depth \<infinity> = None"
  using \<open>node \<in> S\<close>
proof (induction fuel arbitrary: node depth)
  case 0
  then show ?case by simp
next
  case (Suc fuel)
  from closed Suc.prems obtain m where m: "m \<in> S" "m \<in> set (live_children index (child_ids node))"
    by blast
  then have ids: "childIds node \<noteq> None" "childIds node \<noteq> Some []"
    "the (childIds node) = child_ids node"
    by (auto simp: child_ids_def live_children_def map_filter_simps split: option.splits)
  have "assembleTree fuel m index (depth + 1) \<infinity> = None"
    using Suc.IH m(1) by blast
  then have "None \<in> set (map (\<lambda>child. assembleTree fuel child index (depth + 1) \<infinity>)
                (live_children index (child_ids node)))"
    using m(2) by force
  then have "those (map (\<lambda>child. assembleTree fuel child index (depth + 1) \<infinity>)
                (live_children index (child_ids node))) = None"
    by (rule those_None)
  with ids show ?case by (simp add: Let_def)
qed

lemma subtrees_root: "t \<in> set (subtrees t)"
  by (cases t rule: subtrees.cases) auto

lemma subtrees_summary: "subtrees (cdpAXNodeToSummary node) = [cdpAXNodeToSummary node]"
  by (simp add: cdpAXNodeToSummary_def Let_def)

lemma live_chain_Cons:
  "live_chain index p \<Longrightarrow> hd p = m \<Longrightarrow> m \<in> set (live_children index (child_ids n)) \<Longrightarrow>
     live_chain index (n # p)"
  by (cases p) (auto simp: live_children_mem list_ex_iff)

lemma live_chain_nonempty: "live_chain index p \<Longrightarrow> p \<noteq> []"
  by auto

lemma assembleTree_subtree_chain:
  assumes "assembleTree fuel node index depth maxDepth = Some t" and "s \<in> set (subtrees t)"
  shows "\<exists>p. live_chain index p \<and> hd p = node
             \<and> fields s = fields (cdpAXNodeToSummary (last p))"
  using assms
proof (induction fuel arbitrary: node depth t)
  case 0
  then show ?case by simp
next
  case (Suc fuel)
  have root_case: "\<exists>p. live_chain index p \<and> hd p = node
      \<and> fields s' = fields (cdpAXNodeToSummary (last p))"
    if "fields s' = fields (cdpAXNodeToSummary node)" for s'
    using that by (intro exI [of _ "[node]"]) simp
  show ?case
  proof (cases "maxDepth \<le> enat depth \<or> childIds node = None \<or> childIds node = Some []")
    case True
    with Suc.prems have "s = cdpAXNodeToSummary node"
      by (auto simp: subtrees_summary)
    then show ?thesis by (simp add: root_case)
  next
    case False
    let ?xs = "live_children index (the (childIds node))"
    from False Suc.prems(1) obtain cs where
      cs: "those (map (\<lambda>child. assembleTree fuel child index (depth + 1) maxDepth) ?xs) = Some cs"
      and t: "t = (if cs \<noteq> [] then Summary (fields (cdpAXNodeToSummary node)) (Some cs)
                   else cdpAXNodeToSummary node)"
      by (auto simp: Let_def split: option.splits)
    from False have ids: "the (childIds node) = child_ids node"
      by (auto simp: child_ids_def)
    show ?thesis
    proof (cases "fields s = fields (cdpAXNodeToSummary node)")
      case True
      then show ?thesis by (rule root_case)
    next
      case no_root: False
      with Suc.prems(2) t obtain c where c: "c \<in> set cs" "s \<in> set (subtrees c)"
        by (auto simp: subtrees_summary split: if_splits)
      from those_map_Some [OF cs c(1)] obtain child where
        child: "child \<in> set ?xs" "assembleTree fuel child index (depth + 1) maxDepth = Some c"
        by blast
      from Suc.IH [OF child(2) c(2)] obtain p where
        p: "live_chain index p" "hd p = child"
          "fields s = fields (cdpAXNodeToSummary (last p))"
        by blast
      have "live_chain index (node # p)"
        using p(1,2) child(1) ids by (auto intro: live_chain_Cons)
      moreover have "last (node # p) = last p"
        using live_chain_nonempty [OF p(1)] by simp
      ultimately show ?thesis using p(3)
        by (intro exI [of _ "node # p"]) simp
    qed
  qed
qed

lemma buildTreeIndex_fold:
  "fold (\<lambda>node index. index(nodeId node \<mapsto> node)) nodes m k = Some n \<Longrightarrow>
     n \<in> set nodes \<or> m k = Some n"
proof (induction nodes arbitrary: m)
  case Nil
  then show ?case by simp
next
  case (Cons a nodes)
  from Cons.prems have "n \<in> set nodes \<or> (m(nodeId a \<mapsto> a)) k = Some n"
    by (intro Cons.IH) simp
  then show ?case by (auto split: if_splits)
qed

lemma buildTreeIndex_mem: "buildTreeIndex nodes k = Some n \<Longrightarrow> n \<in> set nodes"
  using buildTreeIndex_fold [of nodes Map.empty k n] by (simp add: buildTreeIndex_def)

lemma live_chain_set:
  "live_chain (buildTreeIndex nodes) p \<Longrightarrow> set (tl p) \<subseteq> set nodes"
proof (induction "buildTreeIndex nodes" p rule: live_chain.induct)
  case (3 n m rest)
  then show ?case by (auto simp: list_ex_iff dest: buildTreeIndex_mem)
qed simp_all

lemma live_chain_not_ignored:
  "live_chain index p \<Longrightarrow> \<forall>m\<in>set (tl p). \<not> ignored m"
  by (induction index p rule: live_chain.induct) auto

lemma fold_max_init: "(a::nat) \<le> fold max xs a"
proof (induction xs arbitrary: a)
  case (Cons y ys)
  have "a \<le> max y a" by simp
  also have "\<dots> \<le> fold max ys (max y a)" by (rule Cons.IH)
  finally show ?case by simp
qed simp

lemma fold_max_ge: "x \<in> set xs \<Longrightarrow> (x::nat) \<le> fold max xs a"
proof (induction xs arbitrary: a)
  case (Cons y ys)
  show ?case
  proof (cases "x = y")
    case True
    have "x \<le> max y a" using True by simp
    also have "\<dots> \<le> fold max ys (max y a)" by (rule fold_max_init)
    finally show ?thesis by simp
  next
    case False
    with Cons show ?thesis by simp
  qed
qed simp

lemma tree_depth_pos: "0 < tree_depth t"
  by (cases t rule: tree_depth.cases) auto

lemma pruneToDepth_root_only: "d \<le> 1 \<Longrightarrow> children (pruneToDepth t d) = None"
  by (cases t rule: subtrees.cases) auto

lemma pruneToDepth_shape:
  "int (tree_depth t) \<le> d \<Longrightarrow> shape_of (pruneToDepth t d) = shape_of t"
proof (induction t d rule: pruneToDepth.induct)
  case (1 f maxDepth)
  then show ?case by simp
next
  case (2 f cs maxDepth)
  show ?case
  proof (cases "cs = []")
    case True
    then show ?thesis by simp
  next
    case False
    then obtain c where "c \<in> set cs" by (cases cs) auto
    then have "tree_depth c \<le> fold max (map tree_depth cs) 0"
      by (intro fold_max_ge) simp
    with tree_depth_pos [of c] 2(2) have big: "\<not> maxDepth \<le> 1" by simp
    have "shape_of (pruneToDepth c (maxDepth - 1)) = shape_of c" if "c \<in> set cs" for c
    proof -
      have "tree_depth c \<le> fold max (map tree_depth cs) 0"
        using that by (intro fold_max_ge) simp
      with 2(2) have "int (tree_depth c) \<le> maxDepth - 1" by simp
      with 2(1) [OF big that] show ?thesis by simp
    qed
    with big show ?thesis by simp
  qed
qed

lemma pruneToDepth_identity:
  "children_ok t \<Longrightarrow> int (tree_depth t) \<le> d \<Longrightarrow> pruneToDepth t d = t"
proof (induction t d rule: pruneToDepth.induct)
  case (1 f maxDepth)
  then show ?case by simp
next
  case (2 f cs maxDepth)
  from 2(2) obtain c where "c \<in> set cs" by (cases cs) auto
  then have "tree_depth c \<le> fold max (map tree_depth cs) 0"
    by (intro fold_max_ge) simp
  with tree_depth_pos [of c] 2(3) have big: "\<not> maxDepth \<le> 1" by simp
  have "pruneToDepth c (maxDepth - 1) = c" if "c \<in> set cs" for c
  proof -
    have "tree_depth c \<le> fold max (map tree_depth cs) 0"
      using that by (intro fold_max_ge) simp
    with 2(3) have "int (tree_depth c) \<le> maxDepth - 1" by simp
    moreover have "children_ok c" using 2(2) that by (simp add: list_all_iff)
    ultimately show ?thesis using 2(1) [OF big that] by simp
  qed
  with big show ?case by (simp add: map_idI)
qed

lemma live_chain_step:
  "live_chain index xs \<Longrightarrow> Suc i < length xs \<Longrightarrow>
     xs ! Suc i \<in> set (live_children index (child_ids (xs ! i)))"
proof (induction index xs arbitrary: i rule: live_chain.induct)
  case (3 index n m rest)
  then show ?case
    by (cases i) (auto simp: live_children_mem list_ex_iff)
qed simp_all

lemma cycle_diverges:
  assumes "live_chain index (node # p @ [node])"
  shows "assembleTree fuel node index depth \<infinity> = None"
proof (rule assembleTree_diverges [where S = "set (node # p)"])
  let ?xs = "node # p @ [node]"
  show "\<forall>n\<in>set (node # p). \<exists>m\<in>set (node # p). m \<in> set (live_children index (child_ids n))"
  proof
    fix n assume "n \<in> set (node # p)"
    then obtain i where i: "i < length (node # p)" "(node # p) ! i = n"
      by (meson in_set_conv_nth)
    then have n: "?xs ! i = n"
      by (metis append_Cons nth_append)
    from i(1) have "Suc i < length ?xs" by simp
    from live_chain_step [OF assms this] n
    have "?xs ! Suc i \<in> set (live_children index (child_ids n))" by simp
    moreover have "?xs ! Suc i \<in> set (node # p)"
    proof -
      have "?xs ! Suc i \<in> set ?xs" using \<open>Suc i < length ?xs\<close> by (meson nth_mem)
      then show ?thesis by auto
    qed
    ultimately show "\<exists>m\<in>set (node # p). m \<in> set (live_children index (child_ids n))"
      by blast
  qed
  show "node \<in> set (node # p)" by simp
qed

text \<open>
  Claim C6.  There is an index with a cycle of child references (a chain of live
  children that leads from a node back to itself), a starting node, a starting depth
  and a maximum depth for which \<open>assembleTree\<close> returns under no bound on its nested
  calls: the recursion carries no set of visited nodes, and with the maximum depth
  \<open>Infinity\<close> the test \<open>depth >= maxDepth\<close> never holds.
\<close>

theorem cycle_recurses_indefinitely:
  "\<exists>index node p depth maxDepth.
      live_chain index (node # p @ [node])
      \<and> (\<forall>fuel. assembleTree fuel node index depth maxDepth = None)"
proof -
  let ?a = "raw_node ''1'' False (Some ''2'') (Some [''2''])"
  let ?b = "raw_node ''2'' False (Some ''1'') (Some [''1''])"
  have "live_chain (buildTreeIndex [?a, ?b]) (?a # [?b] @ [?a])"
    by (simp add: node_defs)
  then show ?thesis
    using cycle_diverges by blast
qed

lemma ex_eval:
  "assembleTree (Suc (Suc (Suc 0))) (raw_node ''1'' False None (Some [''2'', ''3'']))
      (buildTreeIndex (filter (\<lambda>n. \<not> ignored n) ex_nodes)) 0 (enat 5)
    = Some ex_tree"
  by (simp add: ex_nodes_def ex_tree_def node_defs Let_def enat_0 [symmetric])

lemma children_ok_subtrees:
  "children_ok t \<longleftrightarrow> list_all (\<lambda>s. children s \<noteq> Some []) (subtrees t)"
  by (induction t rule: children_ok.induct) (auto simp: list_all_iff)

lemma full_tree_children_ok:
  "full_tree fuel nodes interestingOnly maxDepth = Some (Tree t cnt) \<Longrightarrow> children_ok t"
  by (auto simp: full_tree_def Let_def split: option.splits
        intro!: pruneToDepth_children_ok dest: assembleTree_children_ok)

text \<open>
  \<open>pruneToDepth\<close> tests the children field for presence only: a list that is present and
  empty, which no summary of the data model has, is copied when the budget exceeds 1.
\<close>

lemma pruneToDepth_empty_list: "pruneToDepth (Summary f (Some [])) 2 = Summary f (Some [])"
  by simp

text \<open>
  Claim C7.  A summary made by \<open>cdpAXNodeToSummary\<close> has no children field.  In a tree
  that \<open>assembleTree\<close> returns, no summary has a children field that is present and
  empty; \<open>pruneToDepth\<close> keeps that property of a tree, and so the tree of the full-tree
  branch of the handler, which prunes the assembled tree, has it.
\<close>

theorem children_present_nonempty:
  "children (cdpAXNodeToSummary node) = None
   \<and> (assembleTree fuel node index depth maxDepth = Some t \<longrightarrow>
        (\<forall>s\<in>set (subtrees t). children s \<noteq> Some []))
   \<and> ((\<forall>s\<in>set (subtrees t'). children s \<noteq> Some []) \<longrightarrow>
        (\<forall>s\<in>set (subtrees (pruneToDepth t' d)). children s \<noteq> Some []))
   \<and> (full_tree fuel nodes interestingOnly m = Some (Tree t'' cnt) \<longrightarrow>
        (\<forall>s\<in>set (subtrees t''). children s \<noteq> Some []))"
  using summary_children [of node]
    assembleTree_children_ok [of fuel node index depth maxDepth t]
    pruneToDepth_children_ok [of t' d]
    full_tree_children_ok [of fuel nodes interestingOnly m t'' cnt]
  by (simp add: children_ok_subtrees list_all_iff)

theorem children_present_nonempty_witness:
  "assembleTree (Suc (Suc (Suc 0))) (raw_node ''1'' False None (Some [''2'', ''3'']))
      (buildTreeIndex (filter (\<lambda>n. \<not> ignored n) ex_nodes)) 0 (enat 5) = Some ex_tree
   \<and> children ex_tree
       = Some [cdpAXNodeToSummary (raw_node ''3'' False (Some ''1'') None)]
   \<and> list_all (\<lambda>s. children s \<noteq> Some []) (subtrees ex_tree)
   \<and> list_all (\<lambda>s. children s \<noteq> Some []) (subtrees (pruneToDepth ex_tree 1))
   \<and> children (cdpAXNodeToSummary (raw_node ''1'' False None (Some [''2'', ''3'']))) = None"
  using ex_eval
    children_present_nonempty
      [where node = "raw_node ''1'' False None (Some [''2'', ''3''])"
         and fuel = "Suc (Suc (Suc 0))"
         and index = "buildTreeIndex (filter (\<lambda>n. \<not> ignored n) ex_nodes)"
         and depth = 0 and maxDepth = "enat 5" and t = ex_tree and t' = ex_tree and d = 1]
  by (simp add: list_all_iff) (simp add: ex_tree_def)

text \<open>
  Claim C8.  Let the index be built from the nodes of a list that are not ignored and
  let the root be one of them.  Every summary of a tree that \<open>assembleTree\<close> returns is
  the summary of the last node of a chain of raw nodes that starts at the root, in which
  every node is a node of the list that is not ignored and every node but the root is
  held by the index under a child id of its predecessor.  So no ignored node is in the
  tree, and neither is a node that the root reaches only through an ignored node.
\<close>

theorem ignored_nodes_excluded:
  assumes "r \<in> set (filter (\<lambda>n. \<not> ignored n) nodes)"
    and "assembleTree fuel r (buildTreeIndex (filter (\<lambda>n. \<not> ignored n) nodes)) depth maxDepth
           = Some t"
    and "s \<in> set (subtrees t)"
  shows "\<exists>p. live_chain (buildTreeIndex (filter (\<lambda>n. \<not> ignored n) nodes)) p \<and> hd p = r
             \<and> fields s = fields (cdpAXNodeToSummary (last p))
             \<and> set p \<subseteq> set nodes \<and> list_all (\<lambda>n. \<not> ignored n) p"
proof -
  let ?ix = "buildTreeIndex (filter (\<lambda>n. \<not> ignored n) nodes)"
  from assembleTree_subtree_chain [OF assms(2,3)] obtain p where
    p: "live_chain ?ix p" "hd p = r" "fields s = fields (cdpAXNodeToSummary (last p))"
    by blast
  from p(1) have ne: "p \<noteq> []" by (rule live_chain_nonempty)
  then have split: "set p = insert r (set (tl p))"
    using p(2) by (cases p) auto
  have "set (tl p) \<subseteq> set (filter (\<lambda>n. \<not> ignored n) nodes)"
    using p(1) by (rule live_chain_set)
  with split assms(1) have "set p \<subseteq> set (filter (\<lambda>n. \<not> ignored n) nodes)"
    by auto
  then have "set p \<subseteq> set nodes" "list_all (\<lambda>n. \<not> ignored n) p"
    by (auto simp: list_all_iff)
  with p show ?thesis by blast
qed

theorem ignored_nodes_excluded_witness:
  "raw_node ''1'' False None (Some [''2'', ''3'']) \<in> set (filter (\<lambda>n. \<not> ignored n) ex_nodes)
   \<and> assembleTree (Suc (Suc (Suc 0))) (raw_node ''1'' False None (Some [''2'', ''3'']))
        (buildTreeIndex (filter (\<lambda>n. \<not> ignored n) ex_nodes)) 0 (enat 5) = Some ex_tree
   \<and> map (s_nodeId \<circ> fields) (subtrees ex_tree) = [''1'', ''3'']
   \<and> (\<exists>p. live_chain (buildTreeIndex (filter (\<lambda>n. \<not> ignored n) ex_nodes)) p
          \<and> hd p = raw_node ''1'' False None (Some [''2'', ''3''])
          \<and> fields (cdpAXNodeToSummary (raw_node ''3'' False (Some ''1'') None))
              = fields (cdpAXNodeToSummary (last p))
          \<and> set p \<subseteq> set ex_nodes \<and> list_all (\<lambda>n. \<not> ignored n) p)"
proof -
  have r: "raw_node ''1'' False None (Some [''2'', ''3''])
      \<in> set (filter (\<lambda>n. \<not> ignored n) ex_nodes)"
    by (simp add: ex_nodes_def raw_node_def)
  have s: "cdpAXNodeToSummary (raw_node ''3'' False (Some ''1'') None) \<in> set (subtrees ex_tree)"
    by (simp add: ex_tree_def cdpAXNodeToSummary_def Let_def)
  have ids: "map (s_nodeId \<circ> fields) (subtrees ex_tree) = [''1'', ''3'']"
    by (simp add: ex_tree_def cdpAXNodeToSummary_def raw_node_def Let_def)
  from ignored_nodes_excluded [OF r ex_eval s] r ex_eval ids show ?thesis
    by blast
qed

text \<open>
  The same for the full-tree branch of the handler with \<open>interestingOnly\<close> set, which
  filters the list, selects the root, assembles and prunes; the branch returns for every
  maximum depth.
\<close>

lemma select_root_mem: "select_root filtered = Some r \<Longrightarrow> r \<in> set filtered"
  by (auto simp: select_root_def find_Some_iff)

lemma pruneToDepth_subtrees:
  "s \<in> set (subtrees (pruneToDepth t d)) \<Longrightarrow>
     \<exists>s'\<in>set (subtrees t). fields s' = fields s"
proof (induction t d arbitrary: s rule: pruneToDepth.induct)
  case (1 f maxDepth)
  then show ?case by auto
next
  case (2 f cs maxDepth)
  show ?case
  proof (cases "maxDepth \<le> 1")
    case True
    with 2(2) show ?thesis by auto
  next
    case False
    show ?thesis
    proof (cases "fields s = f")
      case True
      then show ?thesis by auto
    next
      case ns: False
      with 2(2) False obtain c where c: "c \<in> set cs"
        "s \<in> set (subtrees (pruneToDepth c (maxDepth - 1)))"
        by auto
      from 2(1) [OF False c] obtain s' where "s' \<in> set (subtrees c)" "fields s' = fields s"
        by blast
      with c(1) show ?thesis by auto
    qed
  qed
qed

lemma full_tree_ignored_excluded:
  assumes "full_tree fuel nodes True maxDepth = Some (Tree t cnt)" and "s \<in> set (subtrees t)"
  shows "\<exists>p. live_chain (buildTreeIndex (filter (\<lambda>n. \<not> ignored n) nodes)) p
             \<and> select_root (filter (\<lambda>n. \<not> ignored n) nodes) = Some (hd p)
             \<and> fields s = fields (cdpAXNodeToSummary (last p))
             \<and> set p \<subseteq> set nodes \<and> list_all (\<lambda>n. \<not> ignored n) p"
proof -
  let ?fl = "filter (\<lambda>n. \<not> ignored n) nodes"
  from assms(1) obtain r a where
    r: "select_root ?fl = Some r"
    and a: "assembleTree fuel r (buildTreeIndex ?fl) 0 (enat maxDepth) = Some a"
    and t: "t = pruneToDepth a (int maxDepth)"
    by (auto simp: full_tree_def Let_def split: option.splits)
  from assms(2) t obtain s' where s': "s' \<in> set (subtrees a)" "fields s' = fields s"
    using pruneToDepth_subtrees by blast
  from assembleTree_subtree_chain [OF a s'(1)] obtain p where
    p: "live_chain (buildTreeIndex ?fl) p" "hd p = r"
      "fields s' = fields (cdpAXNodeToSummary (last p))"
    by blast
  from p(1) have "p \<noteq> []" by (rule live_chain_nonempty)
  then have "set p = insert r (set (tl p))"
    using p(2) by (cases p) auto
  moreover have "set (tl p) \<subseteq> set ?fl"
    using p(1) by (rule live_chain_set)
  moreover have "r \<in> set ?fl" using r by (rule select_root_mem)
  ultimately have "set p \<subseteq> set ?fl" by auto
  then have "set p \<subseteq> set nodes" "list_all (\<lambda>n. \<not> ignored n) p"
    by (auto simp: list_all_iff)
  with p r s'(2) show ?thesis by auto
qed

lemma full_tree_returns:
  assumes "maxDepth < fuel"
  shows "full_tree fuel nodes interestingOnly maxDepth \<noteq> None"
proof -
  define filtered where
    "filtered = (if interestingOnly then filter (\<lambda>n. \<not> ignored n) nodes else nodes)"
  show ?thesis
  proof (cases "select_root filtered")
    case None
    then show ?thesis by (simp add: full_tree_def filtered_def)
  next
    case (Some r)
    from assms have "maxDepth - 0 < fuel" by simp
    then obtain a where
      "assembleTree fuel r (buildTreeIndex filtered) 0 (enat maxDepth) = Some a"
      using assembleTree_finite [of maxDepth 0 fuel r "buildTreeIndex filtered"] by auto
    with Some show ?thesis by (simp add: full_tree_def filtered_def)
  qed
qed

text \<open>
  Claim C9.  Pruning to the maximum depth 1 yields a summary without a children field,
  whatever the tree.  Pruning a tree to a maximum depth that is at least the number of
  its levels leaves its shape unchanged (the same nodes with the same fields, in the
  same order), and it returns the tree itself when no children list of the tree is
  present and empty.
\<close>

theorem pruneToDepth_depth_semantics:
  "children (pruneToDepth t 1) = None
   \<and> (int (tree_depth t) \<le> d \<longrightarrow> shape_of (pruneToDepth t d) = shape_of t)
   \<and> (children_ok t \<and> int (tree_depth t) \<le> d \<longrightarrow> pruneToDepth t d = t)"
  using pruneToDepth_root_only [of 1 t] pruneToDepth_shape [of t d]
    pruneToDepth_identity [of t d]
  by simp

theorem pruneToDepth_depth_semantics_witness:
  "int (tree_depth ex_tree) \<le> 2
   \<and> children_ok ex_tree
   \<and> children (pruneToDepth ex_tree 1) = None
   \<and> shape_of (pruneToDepth ex_tree 2) = shape_of ex_tree
   \<and> pruneToDepth ex_tree 2 = ex_tree"
proof -
  have d: "int (tree_depth ex_tree) \<le> 2"
    by (simp add: ex_tree_def cdpAXNodeToSummary_def Let_def)
  have k: "children_ok ex_tree"
    by (simp add: ex_tree_def cdpAXNodeToSummary_def Let_def)
  from pruneToDepth_depth_semantics [of ex_tree 2] d k show ?thesis
    by simp
qed

section \<open>The end-to-end scenarios of the specification\<close>

lemma scenario_A:
  "full_tree 6
     [\<lparr> nodeId = ''1'', ignored = False, ignoredReasons = None,
        ax_role = Some \<lparr> ax_type = ''role'', ax_payload = Some (JString ''button''),
                         relatedNodes = None \<rparr>,
        ax_name = Some \<lparr> ax_type = ''computedString'', ax_payload = Some (JString ''Submit''),
                         relatedNodes = None \<rparr>,
        ax_description = None, ax_val = None, properties = None, parentId = None,
        childIds = None, backendDOMNodeId = Some 10, frameId = None \<rparr>] True 5
   = Some (Tree (Summary \<lparr> s_role = JString ''button'', s_name = JString ''Submit'',
                            s_description = None, s_val = None, s_focused = None,
                            s_disabled = None, s_checked = None, s_expanded = None,
                            s_required = None, s_level = None,
                            s_backendDOMNodeId = Some 10, s_nodeId = ''1'' \<rparr> None) 1)"
  by (simp add: full_tree_def select_root_def truthy_def node_defs Let_def eval_nat_numeral
        enat_0 [symmetric])

lemma scenario_B:
  "map_sum id (\<lambda>b. (testId b, stability b, recommended b))
     (buildSelectorFromRawNode ''Submit'' ''button'' ''button''
        (Some [''data-testid'', ''submit-btn'', ''id'', ''mat-9'']))
   = Inr (Some (attr_eq ''data-testid'' ''submit-btn''), High,
          ''page.getByTestId('' @ [sq] @ ''submit-btn'' @ [sq] @ '')'')"
  by (simp add: eval_defs)

lemma scenario_C:
  "map_sum id (\<lambda>b. (idSel b, stability b, recommended b))
     (buildSelectorFromRawNode ''Email'' ''textbox'' ''input'' (Some [''id'', ''email-input'']))
   = Inr (Some ''#email-input'', High,
          ''page.locator('' @ [sq] @ ''#email-input'' @ [sq] @ '')'')"
  by (simp add: eval_defs)

lemma scenario_D:
  "map_sum id (\<lambda>b. (stability b, recommended b))
     (buildSelectorFromRawNode ''Home'' ''link'' ''a'' None)
   = Inr (Medium, ''page.getByRole('' @ [sq] @ ''link'' @ [sq] @ '', { name: '' @ [sq]
                    @ ''Home'' @ [sq] @ '' })'')"
  by (simp add: eval_defs)

lemma role_of_Object_prototype_throws:
  "buildSelectorFromRawNode ''Home'' ''constructor'' ''a'' None = Inl TypeError"
  by (simp add: eval_defs)

end
